theory Spec2Isabelle
  imports Main "HOL-Library.Word"
begin

section \<open>TableTupleFilter: one marker byte per tuple slot of a table\<close>

text \<open>
  The header \<^verbatim>\<open>src/ee/storage/tabletuplefilter.h\<close> declares the class
  \<^verbatim>\<open>TableTupleFilter\<close> and its forward iterator \<^verbatim>\<open>TableTupleFilter_iter\<close>.
  Addresses and slot indices are \<^verbatim>\<open>uint64_t\<close>, the block geometry is \<^verbatim>\<open>uint32_t\<close>,
  a marker is a \<^verbatim>\<open>char\<close> compared with \<^verbatim>\<open>int8_t\<close> constants (both signed bytes on the
  engine's platforms; two bytes are equal iff their \<open>sint\<close> values are).
  A \<^verbatim>\<open>TableTuple\<close> enters the filter only through \<^verbatim>\<open>tuple.address()\<close>, so a tuple is
  represented by its address.
\<close>

type_synonym u64 = "64 word"
type_synonym u32 = "32 word"
type_synonym marker = "8 word"

text \<open>
  What can go wrong in the C++: a failed \<^verbatim>\<open>assert\<close>, an address that belongs to no
  enumerated block, an unchecked \<^verbatim>\<open>operator[]\<close> outside the vector, a division by zero.
\<close>

datatype error = AssertionFailed | UnknownBlock | OutOfRange | DivisionByZero

definition INACTIVE_TUPLE :: marker where
  "INACTIVE_TUPLE = - 1"

definition ACTIVE_TUPLE :: marker where
  "ACTIVE_TUPLE = 0"

text \<open>
  Modelled from the spec: the header only declares \<^verbatim>\<open>const static uint64_t INVALID_INDEX\<close>;
  its value is defined outside the header. The specification calls it the invalid sentinel,
  the maximum 64-bit unsigned value.
\<close>

definition INVALID_INDEX :: u64 where
  "INVALID_INDEX = - 1"

record TableTupleFilter =
  m_tuples :: "marker list"
  m_blocks :: "u64 list"
  m_blockIndexes :: "u64 \<rightharpoonup> u64"
  m_tuplesPerBlock :: u32
  m_tupleLength :: u32
  m_prevBlockAddress :: u64
  m_prevBlockIndex :: u64
  m_lastActiveTupleIndex :: u64

text \<open>
  \<^verbatim>\<open>m_tuples.size()\<close> and \<^verbatim>\<open>m_blocks.size()\<close> are \<^verbatim>\<open>size_t\<close> values: the assertions
  compare 64-bit numbers.
\<close>

definition tuples_size :: "TableTupleFilter \<Rightarrow> u64" where
  "tuples_size f = of_nat (length (m_tuples f))"

definition blocks_size :: "TableTupleFilter \<Rightarrow> u64" where
  "blocks_size f = of_nat (length (m_blocks f))"

text \<open>The number of bytes of a block that hold tuples: capacity times tuple length.\<close>

definition block_span :: "TableTupleFilter \<Rightarrow> u64" where
  "block_span f = ucast (m_tuplesPerBlock f) * ucast (m_tupleLength f)"

subsection \<open>Address translation\<close>

text \<open>
  Modelled from the spec: \<^verbatim>\<open>findBlockIndex\<close> is declared in the header and defined elsewhere.
  The specification (section 4.1, \<open>resolve_block\<close>): if the address falls within the cached
  block's address span, reuse the cached pair without touching the map; otherwise compute
  the address's block-aligned base, look it up in \<open>block_offset_by_address\<close>, fail with an
  unknown-block condition if it is absent, and refresh the cache. The allocator's alignment
  is not a field of the filter: the function \<open>block_base\<close> that maps an address to its
  block-aligned base is a parameter.
\<close>

definition findBlockIndex ::
  "(u64 \<Rightarrow> u64) \<Rightarrow> TableTupleFilter \<Rightarrow> u64 \<Rightarrow> error + (u64 \<times> TableTupleFilter)" where
  "findBlockIndex block_base f tupleAddress =
     (if m_prevBlockAddress f \<le> tupleAddress
         \<and> tupleAddress - m_prevBlockAddress f < block_span f
      then Inr (m_prevBlockIndex f, f)
      else (case m_blockIndexes f (block_base tupleAddress) of
              None \<Rightarrow> Inl UnknownBlock
            | Some off \<Rightarrow>
                Inr (off, f\<lparr>m_prevBlockAddress := block_base tupleAddress,
                            m_prevBlockIndex := off\<rparr>)))"

text \<open>
  \<^verbatim>\<open>getTupleIndex\<close> (header, lines 156-161): resolve the block, then
  \<^verbatim>\<open>(tupleAddress - m_prevBlockAddress) / m_tupleLength + blockIndex\<close> in 64-bit arithmetic.
\<close>

definition getTupleIndex ::
  "(u64 \<Rightarrow> u64) \<Rightarrow> TableTupleFilter \<Rightarrow> u64 \<Rightarrow> error + (u64 \<times> TableTupleFilter)" where
  "getTupleIndex block_base f tupleAddress =
     (case findBlockIndex block_base f tupleAddress of
        Inl e \<Rightarrow> Inl e
      | Inr (blockIndex, f') \<Rightarrow>
          if m_tupleLength f' = 0 then Inl DivisionByZero
          else Inr ((tupleAddress - m_prevBlockAddress f') div ucast (m_tupleLength f')
                      + blockIndex, f'))"

subsection \<open>Operations of the filter\<close>

text \<open>\<^verbatim>\<open>updateTuple\<close> (lines 102-109): two assertions, then the store.\<close>

definition updateTuple ::
  "(u64 \<Rightarrow> u64) \<Rightarrow> TableTupleFilter \<Rightarrow> u64 \<Rightarrow> marker \<Rightarrow> error + (TableTupleFilter \<times> u64)" where
  "updateTuple block_base f tuple mk =
     (case getTupleIndex block_base f tuple of
        Inl e \<Rightarrow> Inl e
      | Inr (tupleIdx, f') \<Rightarrow>
          if \<not> (tupleIdx \<le> m_lastActiveTupleIndex f'
                 \<and> m_lastActiveTupleIndex f' \<noteq> INVALID_INDEX) then Inl AssertionFailed
          else if \<not> unat tupleIdx < length (m_tuples f') then Inl OutOfRange
          else if \<not> m_tuples f' ! unat tupleIdx \<noteq> INACTIVE_TUPLE then Inl AssertionFailed
          else Inr (f'\<lparr>m_tuples := (m_tuples f')[unat tupleIdx := mk]\<rparr>, tupleIdx))"

text \<open>\<^verbatim>\<open>getTupleValue\<close> (lines 114-118).\<close>

definition getTupleValue :: "TableTupleFilter \<Rightarrow> u64 \<Rightarrow> error + marker" where
  "getTupleValue f tupleIdx =
     (if \<not> tupleIdx < tuples_size f then Inl AssertionFailed
      else Inr (m_tuples f ! unat tupleIdx))"

text \<open>\<^verbatim>\<open>getTupleAddress\<close> (lines 123-129).\<close>

definition getTupleAddress :: "TableTupleFilter \<Rightarrow> u64 \<Rightarrow> error + u64" where
  "getTupleAddress f tupleIdx =
     (if \<not> tupleIdx < tuples_size f then Inl AssertionFailed
      else if m_tuplesPerBlock f = 0 then Inl DivisionByZero
      else (let blockIdx = tupleIdx div ucast (m_tuplesPerBlock f) in
            if \<not> blockIdx < blocks_size f then Inl AssertionFailed
            else Inr (m_blocks f ! unat blockIdx
                        + (tupleIdx - blockIdx) * ucast (m_tupleLength f))))"

definition filter_empty :: "TableTupleFilter \<Rightarrow> bool" where
  "filter_empty f \<longleftrightarrow> m_lastActiveTupleIndex f = INVALID_INDEX"

definition getLastActiveTupleIndex :: "TableTupleFilter \<Rightarrow> u64" where
  "getLastActiveTupleIndex f = m_lastActiveTupleIndex f"

text \<open>\<^verbatim>\<open>initActiveTuple\<close> (lines 168-178).\<close>

definition initActiveTuple ::
  "(u64 \<Rightarrow> u64) \<Rightarrow> TableTupleFilter \<Rightarrow> u64 \<Rightarrow> error + TableTupleFilter" where
  "initActiveTuple block_base f tuple =
     (case getTupleIndex block_base f tuple of
        Inl e \<Rightarrow> Inl e
      | Inr (tupleIdx, f') \<Rightarrow>
          if \<not> unat tupleIdx < length (m_tuples f') then Inl OutOfRange
          else if \<not> m_tuples f' ! unat tupleIdx = INACTIVE_TUPLE then Inl AssertionFailed
          else (let f'' = f'\<lparr>m_tuples := (m_tuples f')[unat tupleIdx := ACTIVE_TUPLE]\<rparr> in
                if m_lastActiveTupleIndex f'' = INVALID_INDEX
                   \<or> m_lastActiveTupleIndex f'' < tupleIdx
                then Inr (f''\<lparr>m_lastActiveTupleIndex := tupleIdx\<rparr>)
                else Inr f''))"

subsection \<open>Initialization\<close>

text \<open>
  What the filter reads from the table collaborator: its block base addresses in
  enumeration order, its geometry, and the addresses of the currently active tuples in the
  order the table's iteration reports them.
\<close>

record Table =
  tbl_blocks :: "u64 list"
  tbl_tuplesPerBlock :: u32
  tbl_tupleLength :: u32
  tbl_activeTuples :: "u64 list"

text \<open>
  Modelled from the spec: the private \<^verbatim>\<open>init(blocks, tuplesPerBlock, tupleLength)\<close> is declared
  in the header and defined elsewhere. The specification (section 4.1, Initialize): record
  each block's base address, give each block the starting offset
  \<open>index_in_enumeration * tuples_per_block\<close>, populate \<open>block_offset_by_address\<close>
  accordingly, and size the markers to \<open>blocks.len() * tuples_per_block\<close>, every entry
  inactive; no tuple is active yet. The specification does not say what the single-entry
  cache holds at this point: the two cache fields are left as the freshly constructed filter
  has them.
\<close>

definition init_blocks :: "TableTupleFilter \<Rightarrow> u64 list \<Rightarrow> u32 \<Rightarrow> u32 \<Rightarrow> TableTupleFilter" where
  "init_blocks f blocks tuplesPerBlock tupleLength =
     f\<lparr>m_tuples := replicate (length blocks * unat tuplesPerBlock) INACTIVE_TUPLE,
       m_blocks := blocks,
       m_blockIndexes :=
         map_of (zip blocks (map (\<lambda>i. of_nat i * ucast tuplesPerBlock) [0..<length blocks])),
       m_tuplesPerBlock := tuplesPerBlock,
       m_tupleLength := tupleLength,
       m_lastActiveTupleIndex := INVALID_INDEX\<rparr>"

fun initActiveTuples ::
  "(u64 \<Rightarrow> u64) \<Rightarrow> TableTupleFilter \<Rightarrow> u64 list \<Rightarrow> error + TableTupleFilter" where
  "initActiveTuples block_base f [] = Inr f"
| "initActiveTuples block_base f (t # ts) =
     (case initActiveTuple block_base f t of
        Inl e \<Rightarrow> Inl e
      | Inr f' \<Rightarrow> initActiveTuples block_base f' ts)"

text \<open>
  Modelled from the spec: \<^verbatim>\<open>init(Table*)\<close> is declared in the header and defined elsewhere.
  The specification: after the blocks are enumerated, every tuple the table reports as
  active is resolved and marked active through \<^verbatim>\<open>initActiveTuple\<close>, which also advances
  the last active slot.
\<close>

definition init :: "(u64 \<Rightarrow> u64) \<Rightarrow> TableTupleFilter \<Rightarrow> Table \<Rightarrow> error + TableTupleFilter" where
  "init block_base f tbl =
     initActiveTuples block_base
       (init_blocks f (tbl_blocks tbl) (tbl_tuplesPerBlock tbl) (tbl_tupleLength tbl))
       (tbl_activeTuples tbl)"

subsection \<open>The marker iterator\<close>

text \<open>
  An iterator is a pointer to its filter and a position \<^verbatim>\<open>m_tupleIdx\<close>. The filter is passed
  to every operation, the iterator is its position. \<^verbatim>\<open>increment\<close> (lines 272-279) is a
  do-while loop: advance, then go on while the position is at most the last active slot and
  the marker there is not the one looked for.
\<close>

function increment :: "TableTupleFilter \<Rightarrow> marker \<Rightarrow> u64 \<Rightarrow> error + u64" where
  "increment f MARKER tupleIdx =
     (let lastActiveTupleIndex = getLastActiveTupleIndex f;
          tupleIdx' = tupleIdx + 1
      in if tupleIdx' \<le> lastActiveTupleIndex
         then (case getTupleValue f tupleIdx' of
                 Inl e \<Rightarrow> Inl e
               | Inr v \<Rightarrow> if v \<noteq> MARKER then increment f MARKER tupleIdx' else Inr tupleIdx')
         else Inr tupleIdx')"
  by pat_completeness auto
termination
proof (relation "measure (\<lambda>(f, MARKER, tupleIdx). unat (tuples_size f - (tupleIdx + 1)))")
  show "wf (measure (\<lambda>(f, MARKER, tupleIdx). unat (tuples_size f - (tupleIdx + 1))))"
    by simp
next
  fix f :: TableTupleFilter and MARKER :: marker and tupleIdx x xa :: u64 and v :: marker
  assume "xa = tupleIdx + 1" and ok: "getTupleValue f xa = Inr v"
  from ok have lt: "xa < tuples_size f"
    by (simp add: getTupleValue_def split: if_splits)
  then have nz: "tuples_size f - xa \<noteq> 0"
    by simp
  have eq: "tuples_size f - (xa + 1) = (tuples_size f - xa) - 1"
    by simp
  from nz have "unat ((tuples_size f - xa) - 1) < unat (tuples_size f - xa)"
    by unat_arith
  then have "unat (tuples_size f - (xa + 1)) < unat (tuples_size f - xa)"
    by (simp only: eq)
  with \<open>xa = tupleIdx + 1\<close>
  show "((f, MARKER, xa), (f, MARKER, tupleIdx))
          \<in> measure (\<lambda>(f, MARKER, tupleIdx). unat (tuples_size f - (tupleIdx + 1)))"
    by simp
qed

text \<open>The constructor of a begin iterator (lines 241-248) and \<^verbatim>\<open>begin\<close>, \<^verbatim>\<open>end\<close> (285-299).\<close>

definition filter_begin :: "marker \<Rightarrow> TableTupleFilter \<Rightarrow> error + u64" where
  "filter_begin MARKER f =
     (if \<not> filter_empty f then increment f MARKER INVALID_INDEX else Inr INVALID_INDEX)"

definition filter_end :: "TableTupleFilter \<Rightarrow> u64" where
  "filter_end f =
     (if getLastActiveTupleIndex f \<noteq> INVALID_INDEX then getLastActiveTupleIndex f + 1
      else INVALID_INDEX)"

definition iter_equal :: "u64 \<Rightarrow> u64 \<Rightarrow> bool" where
  "iter_equal a b \<longleftrightarrow> a = b"

definition dereference :: "u64 \<Rightarrow> u64" where
  "dereference tupleIdx = tupleIdx"

subsection \<open>Walking a range of iterators\<close>

text \<open>
  The caller's loop \<^verbatim>\<open>for (it = begin<M>(); it != end<M>(); ++it) visit(*it);\<close> returns
  the positions it visited and the position it stopped at. It is a total function: every
  increment brings the position closer to the end position, counted modulo \<open>2^64\<close>.
\<close>

lemma unat_succ_ne: "(j::u64) \<noteq> - 1 \<Longrightarrow> unat (j + 1) = Suc (unat j)"
  using unatSuc [of j] by (simp add: add.commute add_eq_0_iff)

lemma less_not_max: "(j::u64) < s \<Longrightarrow> j \<noteq> - 1"
  using word_n1_ge [of s] by (auto simp: not_le [symmetric] simp del: word_n1_ge)

lemma unat_succ_lt: "(j::u64) < s \<Longrightarrow> unat (j + 1) = Suc (unat j)"
  by (rule unat_succ_ne) (rule less_not_max)

lemma unat_pred_less: "(w::u64) \<noteq> 0 \<Longrightarrow> unat (w - 1) < unat w"
  by unat_arith

lemma increment_range:
  "increment f M i = Inr r \<Longrightarrow>
     (if i + 1 \<le> m_lastActiveTupleIndex f
      then (i + 1 \<le> r \<and> r \<le> m_lastActiveTupleIndex f)
           \<or> (r = m_lastActiveTupleIndex f + 1 \<and> m_lastActiveTupleIndex f \<noteq> - 1)
      else r = i + 1)"
proof (induction f M i rule: increment.induct)
  case (1 f M i)
  let ?L = "m_lastActiveTupleIndex f"
  let ?j = "i + 1"
  show ?case
  proof (cases "?j \<le> ?L")
    case False
    with "1.prems" show ?thesis
      by (simp add: increment.simps [of f M i] getLastActiveTupleIndex_def Let_def)
  next
    case jL: True
    show ?thesis
    proof (cases "getTupleValue f ?j")
      case (Inl e)
      with jL "1.prems" show ?thesis
        by (simp add: increment.simps [of f M i] getLastActiveTupleIndex_def Let_def)
    next
      case (Inr v)
      then have lt: "?j < tuples_size f"
        by (simp add: getTupleValue_def split: if_splits)
      show ?thesis
      proof (cases "v = M")
        case True
        with jL Inr "1.prems" show ?thesis
          by (simp add: increment.simps [of f M i] getLastActiveTupleIndex_def Let_def)
      next
        case False
        with jL Inr "1.prems" have rec: "increment f M ?j = Inr r"
          by (simp add: increment.simps [of f M i] getLastActiveTupleIndex_def Let_def)
        have ih: "if ?j + 1 \<le> ?L
            then (?j + 1 \<le> r \<and> r \<le> ?L) \<or> (r = ?L + 1 \<and> ?L \<noteq> - 1)
            else r = ?j + 1"
          using "1.IH" [OF refl refl _ Inr False rec] jL
          by (simp add: getLastActiveTupleIndex_def)
        have u: "unat (?j + 1) = Suc (unat ?j)"
          using lt by (rule unat_succ_lt)
        show ?thesis
        proof (cases "?j + 1 \<le> ?L")
          case True
          have "?j \<le> ?j + 1"
            by (simp only: word_le_nat_alt u)
          with ih True jL show ?thesis
            by auto
        next
          case False
          with ih have r: "r = ?j + 1" by simp
          from False jL u have "unat ?L = unat ?j"
            by (simp add: word_le_nat_alt)
          then have "?L = ?j" by (simp only: word_unat_eq_iff)
          moreover from this lt have "?L \<noteq> - 1"
            by (simp add: less_not_max)
          ultimately show ?thesis using r jL
            by simp
        qed
      qed
    qed
  qed
qed

lemma walk_decreases:
  assumes ne: "it \<noteq> filter_end f" and inc: "increment f M it = Inr r"
  shows "unat (filter_end f - r) < unat (filter_end f - it)"
proof -
  let ?L = "m_lastActiveTupleIndex f"
  let ?e = "filter_end f"
  note rg = increment_range [OF inc]
  show ?thesis
  proof (cases "it + 1 \<le> ?L")
    case False
    with rg have r: "r = it + 1" by simp
    from ne have "?e - it \<noteq> 0" by simp
    then have "unat ((?e - it) - 1) < unat (?e - it)"
      by (rule unat_pred_less)
    moreover have "?e - r = (?e - it) - 1"
      by (simp add: r)
    ultimately show ?thesis by (simp only:)
  next
    case le: True
    show ?thesis
    proof (cases "?L = - 1")
      case True
      then have e: "?e = - 1"
        by (simp add: filter_end_def getLastActiveTupleIndex_def INVALID_INDEX_def)
      with ne have "it \<noteq> - 1" by simp
      then have u: "unat (it + 1) = Suc (unat it)" by (rule unat_succ_ne)
      from rg le True have "it + 1 \<le> r" by simp
      then have "unat it < unat r" by (simp add: word_le_nat_alt u)
      moreover have "unat (- 1 - r) = unat (- 1 :: u64) - unat r"
        by (rule unat_sub) simp
      moreover have "unat (- 1 - it) = unat (- 1 :: u64) - unat it"
        by (rule unat_sub) simp
      moreover have "unat r \<le> unat (- 1 :: u64)"
        using word_n1_ge [of r] by (simp only: word_le_nat_alt)
      ultimately show ?thesis by (simp only: e)
    next
      case False
      then have e: "?e = ?L + 1"
        by (simp add: filter_end_def getLastActiveTupleIndex_def INVALID_INDEX_def)
      from False have ue: "unat ?e = Suc (unat ?L)"
        unfolding e by (rule unat_succ_ne)
      from rg le False have rr: "(it + 1 \<le> r \<and> r \<le> ?L) \<or> r = ?L + 1" by auto
      then have rle: "unat r \<le> Suc (unat ?L)"
        using ue e by (auto simp: word_le_nat_alt)
      then have "r \<le> ?e" by (simp add: word_le_nat_alt ue)
      then have dr: "unat (?e - r) = Suc (unat ?L) - unat r"
        by (simp add: unat_sub ue)
      show ?thesis
      proof (cases "it = - 1")
        case True
        have "?e - it = ?e + 1" by (simp add: True)
        moreover have "?e \<noteq> - 1" using ne True by simp
        then have "unat (?e + 1) = Suc (unat ?e)" by (rule unat_succ_ne)
        ultimately have "unat (?e - it) = Suc (Suc (unat ?L))"
          by (simp only: ue)
        with dr show ?thesis by simp
      next
        case False
        then have u: "unat (it + 1) = Suc (unat it)" by (rule unat_succ_ne)
        with le have itL: "unat it < unat ?L" by (simp add: word_le_nat_alt)
        then have "it \<le> ?e" by (simp add: word_le_nat_alt ue)
        then have di: "unat (?e - it) = Suc (unat ?L) - unat it"
          by (simp add: unat_sub ue)
        from rr have "unat it < unat r"
        proof
          assume "it + 1 \<le> r \<and> r \<le> ?L"
          then show ?thesis by (simp add: word_le_nat_alt u)
        next
          assume "r = ?L + 1"
          with ue e itL show ?thesis by simp
        qed
        with dr di rle show ?thesis by linarith
      qed
    qed
  qed
qed

function walk ::
  "TableTupleFilter \<Rightarrow> marker \<Rightarrow> u64 \<Rightarrow> error + (u64 list \<times> u64)" where
  "walk f MARKER it =
     (if iter_equal it (filter_end f) then Inr ([], it)
      else (case increment f MARKER it of
              Inl e \<Rightarrow> Inl e
            | Inr it' \<Rightarrow>
                (case walk f MARKER it' of
                   Inl e \<Rightarrow> Inl e
                 | Inr (visited, final) \<Rightarrow> Inr (dereference it # visited, final))))"
  by pat_completeness auto
termination walk
  by (relation "measure (\<lambda>(f, MARKER, it). unat (filter_end f - it))")
     (simp_all add: iter_equal_def walk_decreases)

definition iterate :: "marker \<Rightarrow> TableTupleFilter \<Rightarrow> error + (u64 list \<times> u64)" where
  "iterate MARKER f =
     (case filter_begin MARKER f of
        Inl e \<Rightarrow> Inl e
      | Inr it \<Rightarrow> walk f MARKER it)"

subsection \<open>Initialized filters, the update precondition, the cache\<close>

text \<open>
  What initialization leaves behind, as far as iteration and updates depend on it: the
  marker vector is a vector (its size fits a \<^verbatim>\<open>size_t\<close>), and the last active slot is
  either the invalid sentinel or a slot of the vector.
\<close>

definition initialized :: "TableTupleFilter \<Rightarrow> bool" where
  "initialized f \<longleftrightarrow>
     length (m_tuples f) < 2 ^ 64
     \<and> (m_lastActiveTupleIndex f = INVALID_INDEX
        \<or> unat (m_lastActiveTupleIndex f) < length (m_tuples f))"

text \<open>
  The two assertions of \<^verbatim>\<open>updateTuple\<close>: the slot is at most the last active slot, there
  is a last active slot, and the slot's marker is not the inactive code.
\<close>

definition update_precondition :: "TableTupleFilter \<Rightarrow> u64 \<Rightarrow> bool" where
  "update_precondition f tupleIdx \<longleftrightarrow>
     tupleIdx \<le> m_lastActiveTupleIndex f \<and> m_lastActiveTupleIndex f \<noteq> INVALID_INDEX
     \<and> m_tuples f ! unat tupleIdx \<noteq> INACTIVE_TUPLE"

text \<open>
  The cache covers an address when the address is within the cached block's span; it is
  recorded when the cached pair is an entry of \<^verbatim>\<open>m_blockIndexes\<close>, as it is after every
  refresh. An address is in a block when it is within the span that starts at the block's
  base. The offset of the \<open>k\<close>-th enumerated block is \<open>k\<close> times the tuples per block.
\<close>

definition cache_covers :: "TableTupleFilter \<Rightarrow> u64 \<Rightarrow> bool" where
  "cache_covers f a \<longleftrightarrow>
     m_prevBlockAddress f \<le> a \<and> a - m_prevBlockAddress f < block_span f"

definition cache_recorded :: "TableTupleFilter \<Rightarrow> bool" where
  "cache_recorded f \<longleftrightarrow> m_blockIndexes f (m_prevBlockAddress f) = Some (m_prevBlockIndex f)"

definition in_block :: "TableTupleFilter \<Rightarrow> u64 \<Rightarrow> u64 \<Rightarrow> bool" where
  "in_block f base a \<longleftrightarrow> base \<le> a \<and> a - base < block_span f"

definition block_offset :: "TableTupleFilter \<Rightarrow> nat \<Rightarrow> u64" where
  "block_offset f k = of_nat k * ucast (m_tuplesPerBlock f)"

subsection \<open>A freshly constructed filter and the end-to-end scenario\<close>

text \<open>
  Modelled from the spec: the default constructor is declared in the header and defined
  elsewhere. The specification says of a filter that no tuple was ever active in that its
  last active slot is the invalid sentinel; a freshly constructed filter has no blocks and
  no markers yet. Its geometry and its cache are taken as zero.
\<close>

definition new_filter :: TableTupleFilter where
  "new_filter = \<lparr>m_tuples = [], m_blocks = [], m_blockIndexes = Map.empty,
     m_tuplesPerBlock = 0, m_tupleLength = 0, m_prevBlockAddress = 0, m_prevBlockIndex = 0,
     m_lastActiveTupleIndex = INVALID_INDEX\<rparr>"

text \<open>
  The scenario of the specification's section 8: two blocks of four tuples of sixteen bytes.
  A block is 64 bytes, the blocks are 64-byte aligned (base addresses \<open>0x1000\<close> and
  \<open>0x2000\<close>), and the table reports as active the tuples at block-relative slots 0, 1, 3 of
  block 0 and slot 2 of block 1.
\<close>

definition aligned64 :: "u64 \<Rightarrow> u64" where
  "aligned64 a = a - a mod 64"

definition scenario_table :: Table where
  "scenario_table = \<lparr>tbl_blocks = [0x1000, 0x2000], tbl_tuplesPerBlock = 4, tbl_tupleLength = 16,
     tbl_activeTuples = [0x1000, 0x1010, 0x1030, 0x2020]\<rparr>"


text \<open>The filter after initialization, and after the tuple at slot 1 got the code 5.\<close>

definition scenario_filter :: TableTupleFilter where
  "scenario_filter = \<lparr>m_tuples = [0, 0, - 1, 0, - 1, - 1, 0, - 1], m_blocks = [0x1000, 0x2000],
     m_blockIndexes = map_of [(0x1000, 0), (0x2000, 4)],
     m_tuplesPerBlock = 4, m_tupleLength = 16, m_prevBlockAddress = 0x2000, m_prevBlockIndex = 4,
     m_lastActiveTupleIndex = 6\<rparr>"

definition scenario_updated :: TableTupleFilter where
  "scenario_updated = \<lparr>m_tuples = [0, 5, - 1, 0, - 1, - 1, 0, - 1], m_blocks = [0x1000, 0x2000],
     m_blockIndexes = map_of [(0x1000, 0), (0x2000, 4)],
     m_tuplesPerBlock = 4, m_tupleLength = 16, m_prevBlockAddress = 0x1000, m_prevBlockIndex = 0,
     m_lastActiveTupleIndex = 6\<rparr>"

section \<open>Properties\<close>

subsection \<open>Evaluating the scenario\<close>

lemmas scenario_defs =
  new_filter_def scenario_table_def scenario_filter_def scenario_updated_def aligned64_def
  INVALID_INDEX_def INACTIVE_TUPLE_def ACTIVE_TUPLE_def

lemmas translate_defs =
  initActiveTuple_def updateTuple_def getTupleIndex_def findBlockIndex_def block_span_def

lemmas iterate_defs =
  iterate_def filter_begin_def filter_empty_def filter_end_def iter_equal_def dereference_def
  getLastActiveTupleIndex_def getTupleValue_def tuples_size_def



lemma iterate_scenario_active: "iterate ACTIVE_TUPLE scenario_filter = Inr ([0, 1, 3, 6], 7)"
  by (simp add: iterate_defs scenario_defs)

lemma update_scenario: "updateTuple aligned64 scenario_filter 0x1010 5 = Inr (scenario_updated, 1)"
  by (simp add: scenario_defs translate_defs)

lemma iterate_updated_5: "iterate 5 scenario_updated = Inr ([1], 7)"
  by (simp add: iterate_defs scenario_defs)

lemma iterate_updated_active: "iterate ACTIVE_TUPLE scenario_updated = Inr ([0, 3, 6], 7)"
  by (simp add: iterate_defs scenario_defs)









text \<open>
  Claim C1. The class comment gives the translation
  \<open>index = (address - block address) / tuple size + block number * tuples per block\<close>,
  so the inverse has to subtract the block's offset \<open>blockIdx * m_tuplesPerBlock\<close> from the
  index. \<^verbatim>\<open>getTupleAddress\<close> subtracts \<open>blockIdx\<close> instead. In the scenario the active
  tuple at address \<open>0x2020\<close> (block 1, slot 2 of the block) has slot index 6, and the address
  recovered for slot 6 is \<open>0x2000 + (6 - 1) * 16 = 0x2050\<close>: it is 80 bytes past the base
  of block 1, outside the 64 bytes of that block, and its aligned base is not \<open>0x2000\<close>.
\<close>

theorem getTupleAddress_leaves_block:
  "getTupleIndex aligned64 scenario_filter 0x2020 = Inr (6, scenario_filter)
   \<and> getTupleAddress scenario_filter 6 = Inr 0x2050
   \<and> m_blocks scenario_filter ! 1 = 0x2000
   \<and> \<not> (0x2050 - 0x2000 < block_span scenario_filter)
   \<and> aligned64 0x2050 \<noteq> 0x2000"
  by (simp add: scenario_defs translate_defs getTupleAddress_def tuples_size_def blocks_size_def)

subsection \<open>Updating a marker\<close>

lemma findBlockIndex_frame:
  "findBlockIndex bb f a = Inr (off, f') \<Longrightarrow>
     f' = f\<lparr>m_prevBlockAddress := m_prevBlockAddress f', m_prevBlockIndex := m_prevBlockIndex f'\<rparr>"
  by (auto simp: findBlockIndex_def split: if_splits option.splits)

lemma getTupleIndex_frame:
  "getTupleIndex bb f a = Inr (idx, f') \<Longrightarrow>
     f' = f\<lparr>m_prevBlockAddress := m_prevBlockAddress f', m_prevBlockIndex := m_prevBlockIndex f'\<rparr>"
  by (auto simp: getTupleIndex_def split: sum.splits if_splits dest: findBlockIndex_frame)

lemma getTupleIndex_fields:
  assumes "getTupleIndex bb f a = Inr (idx, f')"
  shows "m_tuples f' = m_tuples f" and "m_blocks f' = m_blocks f"
    and "m_blockIndexes f' = m_blockIndexes f" and "m_tuplesPerBlock f' = m_tuplesPerBlock f"
    and "m_tupleLength f' = m_tupleLength f"
    and "m_lastActiveTupleIndex f' = m_lastActiveTupleIndex f"
proof -
  note fr = getTupleIndex_frame [OF assms]
  show "m_tuples f' = m_tuples f" by (subst fr) simp
  show "m_blocks f' = m_blocks f" by (subst fr) simp
  show "m_blockIndexes f' = m_blockIndexes f" by (subst fr) simp
  show "m_tuplesPerBlock f' = m_tuplesPerBlock f" by (subst fr) simp
  show "m_tupleLength f' = m_tupleLength f" by (subst fr) simp
  show "m_lastActiveTupleIndex f' = m_lastActiveTupleIndex f" by (subst fr) simp
qed

lemma initialized_in_range:
  assumes "initialized f" and "idx \<le> m_lastActiveTupleIndex f"
    and "m_lastActiveTupleIndex f \<noteq> INVALID_INDEX"
  shows "unat idx < length (m_tuples f)"
  using assms by (auto simp: initialized_def word_le_nat_alt)

text \<open>
  Claim C5. \<^verbatim>\<open>updateTuple\<close> fails fast when its precondition is violated: on an
  initialized filter and a tuple whose slot index resolves, if the slot index exceeds the
  last active slot or the slot's marker is the inactive code, the update is rejected with
  an assertion failure; the assertion failure happens exactly when the precondition (the
  conjunction of the two assertions) does not hold, and under the precondition the update
  succeeds, so no failure branch is reached.
\<close>

theorem updateTuple_checks_precondition:
  assumes "initialized f" and "getTupleIndex bb f t = Inr (idx, f1)"
  shows "(m_lastActiveTupleIndex f < idx \<or> m_tuples f ! unat idx = INACTIVE_TUPLE
            \<longrightarrow> updateTuple bb f t mk = Inl AssertionFailed)
       \<and> (updateTuple bb f t mk = Inl AssertionFailed \<longleftrightarrow> \<not> update_precondition f idx)
       \<and> (update_precondition f idx
            \<longrightarrow> updateTuple bb f t mk
                  = Inr (f1\<lparr>m_tuples := (m_tuples f)[unat idx := mk]\<rparr>, idx))"
proof -
  note fl = getTupleIndex_fields [OF assms(2)]
  have rng: "idx \<le> m_lastActiveTupleIndex f \<Longrightarrow> m_lastActiveTupleIndex f \<noteq> INVALID_INDEX
      \<Longrightarrow> unat idx < length (m_tuples f)"
    using assms(1) by (rule initialized_in_range)
  show ?thesis
    using rng by (auto simp: updateTuple_def assms(2) fl update_precondition_def)
qed

theorem updateTuple_checks_precondition_witness:
  "initialized scenario_filter
   \<and> getTupleIndex aligned64 scenario_filter 0x1010 = Inr (1, (scenario_filter\<lparr>m_prevBlockAddress := 0x1000, m_prevBlockIndex := 0\<rparr>))
   \<and> update_precondition scenario_filter 1
   \<and> updateTuple aligned64 scenario_filter 0x1010 5
       = Inr ((scenario_filter\<lparr>m_prevBlockAddress := 0x1000, m_prevBlockIndex := 0\<rparr>)\<lparr>m_tuples := (m_tuples scenario_filter)[unat (1 :: u64) := 5]\<rparr>, 1)
   \<and> getTupleIndex aligned64 scenario_filter 0x1020 = Inr (2, (scenario_filter\<lparr>m_prevBlockAddress := 0x1000, m_prevBlockIndex := 0\<rparr>))
   \<and> m_tuples scenario_filter ! unat (2 :: u64) = INACTIVE_TUPLE
   \<and> updateTuple aligned64 scenario_filter 0x1020 5 = Inl AssertionFailed
   \<and> getTupleIndex aligned64 scenario_filter 0x2030 = Inr (7, scenario_filter)
   \<and> m_lastActiveTupleIndex scenario_filter < 7
   \<and> updateTuple aligned64 scenario_filter 0x2030 5 = Inl AssertionFailed"
proof -
  have i: "initialized scenario_filter"
    by (simp add: initialized_def scenario_defs)
  have g1: "getTupleIndex aligned64 scenario_filter 0x1010 = Inr (1, (scenario_filter\<lparr>m_prevBlockAddress := 0x1000, m_prevBlockIndex := 0\<rparr>))"
    by (simp add: scenario_defs translate_defs)
  have g2: "getTupleIndex aligned64 scenario_filter 0x1020 = Inr (2, (scenario_filter\<lparr>m_prevBlockAddress := 0x1000, m_prevBlockIndex := 0\<rparr>))"
    by (simp add: scenario_defs translate_defs)
  have g3: "getTupleIndex aligned64 scenario_filter 0x2030 = Inr (7, scenario_filter)"
    by (simp add: scenario_defs translate_defs)
  have p1: "update_precondition scenario_filter 1"
    by (simp add: update_precondition_def scenario_defs)
  have t2: "m_tuples scenario_filter ! unat (2 :: u64) = INACTIVE_TUPLE"
    by (simp add: scenario_defs)
  have t3: "m_lastActiveTupleIndex scenario_filter < 7"
    by (simp add: scenario_defs)
  show ?thesis
    using i g1 g2 g3 p1 t2 t3
      updateTuple_checks_precondition [OF i g1, of 5]
      updateTuple_checks_precondition [OF i g2, of 5]
      updateTuple_checks_precondition [OF i g3, of 5]
    by simp
qed
text \<open>
  Claim C6. For an active tuple that satisfies the update precondition and any code,
  \<^verbatim>\<open>updateTuple\<close> returns the tuple's slot index and sets exactly the marker at that slot:
  every other marker, the length of the marker vector, the blocks, the block offsets, the
  geometry and the last active slot are unchanged, and reading the slot afterwards returns
  the code.
\<close>

theorem updateTuple_frame:
  assumes "initialized f" and "getTupleIndex bb f t = Inr (idx, f1)"
    and "update_precondition f idx"
  shows "\<exists>f'. updateTuple bb f t mk = Inr (f', idx)
           \<and> m_tuples f' = (m_tuples f)[unat idx := mk]
           \<and> m_tuples f' ! unat idx = mk
           \<and> (\<forall>j. j \<noteq> unat idx \<longrightarrow> m_tuples f' ! j = m_tuples f ! j)
           \<and> length (m_tuples f') = length (m_tuples f)
           \<and> m_blocks f' = m_blocks f
           \<and> m_blockIndexes f' = m_blockIndexes f
           \<and> m_tuplesPerBlock f' = m_tuplesPerBlock f
           \<and> m_tupleLength f' = m_tupleLength f
           \<and> m_lastActiveTupleIndex f' = m_lastActiveTupleIndex f
           \<and> getTupleValue f' idx = Inr mk"
proof -
  note fl = getTupleIndex_fields [OF assms(2)]
  have rng: "unat idx < length (m_tuples f)"
    using assms(1,3) by (auto simp: update_precondition_def intro: initialized_in_range)
  have "length (m_tuples f) < 2 ^ 64"
    using assms(1) by (simp add: initialized_def)
  then have "unat (of_nat (length (m_tuples f)) :: u64) = length (m_tuples f)"
    by (simp add: unat_of_nat)
  with rng have lt: "idx < of_nat (length (m_tuples f))"
    by (simp add: word_less_nat_alt)
  have "updateTuple bb f t mk = Inr (f1\<lparr>m_tuples := (m_tuples f)[unat idx := mk]\<rparr>, idx)"
    using assms(3) rng by (auto simp: updateTuple_def assms(2) fl update_precondition_def)
  then show ?thesis
    using rng lt by (simp add: fl getTupleValue_def tuples_size_def)
qed

theorem updateTuple_frame_witness:
  "initialized scenario_filter
   \<and> getTupleIndex aligned64 scenario_filter 0x1010 = Inr (1, (scenario_filter\<lparr>m_prevBlockAddress := 0x1000, m_prevBlockIndex := 0\<rparr>))
   \<and> update_precondition scenario_filter 1
   \<and> updateTuple aligned64 scenario_filter 0x1010 5 = Inr (scenario_updated, 1)
   \<and> m_tuples scenario_updated = (m_tuples scenario_filter)[unat (1 :: u64) := 5]
   \<and> m_lastActiveTupleIndex scenario_updated = m_lastActiveTupleIndex scenario_filter
   \<and> getTupleValue scenario_updated 1 = Inr 5"
proof -
  have i: "initialized scenario_filter"
    by (simp add: initialized_def scenario_defs)
  have g1: "getTupleIndex aligned64 scenario_filter 0x1010 = Inr (1, (scenario_filter\<lparr>m_prevBlockAddress := 0x1000, m_prevBlockIndex := 0\<rparr>))"
    by (simp add: scenario_defs translate_defs)
  have p1: "update_precondition scenario_filter 1"
    by (simp add: update_precondition_def scenario_defs)
  show ?thesis
    using i g1 p1 updateTuple_frame [OF i g1 p1, of 5] update_scenario
    by auto
qed
text \<open>
  Claim C4, amended. A slot at most the last active slot whose marker is not the inactive
  code keeps a marker that is not the inactive code over every successful
  \<^verbatim>\<open>updateTuple\<close> call whose code is not the inactive code itself, and the last active
  slot is unchanged. A call that passes the inactive code is not rejected: the last
  subsection evaluates one.
\<close>

theorem updateTuple_keeps_active:
  assumes "updateTuple bb f t mk = Inr (f', idx)" and "mk \<noteq> INACTIVE_TUPLE"
    and "s \<le> m_lastActiveTupleIndex f" and "m_tuples f ! unat s \<noteq> INACTIVE_TUPLE"
  shows "m_tuples f' ! unat s \<noteq> INACTIVE_TUPLE
         \<and> m_lastActiveTupleIndex f' = m_lastActiveTupleIndex f"
proof -
  from assms(1) obtain f1 where g: "getTupleIndex bb f t = Inr (idx, f1)"
    and rng: "unat idx < length (m_tuples f1)"
    and f': "f' = f1\<lparr>m_tuples := (m_tuples f1)[unat idx := mk]\<rparr>"
    by (auto simp: updateTuple_def split: sum.splits if_splits)
  note fl = getTupleIndex_fields [OF g]
  show ?thesis
  proof (cases "unat s = unat idx")
    case True
    with rng assms(2) show ?thesis by (simp add: f' fl)
  next
    case False
    with assms(4) show ?thesis by (simp add: f' fl)
  qed
qed

theorem updateTuple_keeps_active_witness:
  "updateTuple aligned64 scenario_filter 0x1010 5 = Inr (scenario_updated, 1)
   \<and> 5 \<noteq> INACTIVE_TUPLE
   \<and> 3 \<le> m_lastActiveTupleIndex scenario_filter
   \<and> m_tuples scenario_filter ! unat (3 :: u64) \<noteq> INACTIVE_TUPLE
   \<and> m_tuples scenario_updated ! unat (3 :: u64) \<noteq> INACTIVE_TUPLE
   \<and> m_tuples scenario_filter ! unat (1 :: u64) \<noteq> INACTIVE_TUPLE
   \<and> m_tuples scenario_updated ! unat (1 :: u64) \<noteq> INACTIVE_TUPLE"
proof -
  have m: "5 \<noteq> INACTIVE_TUPLE"
    by (simp add: INACTIVE_TUPLE_def)
  have s3: "3 \<le> m_lastActiveTupleIndex scenario_filter"
    and s1: "1 \<le> m_lastActiveTupleIndex scenario_filter"
    by (simp_all add: scenario_defs)
  have a3: "m_tuples scenario_filter ! unat (3 :: u64) \<noteq> INACTIVE_TUPLE"
    and a1: "m_tuples scenario_filter ! unat (1 :: u64) \<noteq> INACTIVE_TUPLE"
    by (simp_all add: scenario_defs)
  show ?thesis
    using update_scenario m s3 a3 a1
      updateTuple_keeps_active [OF update_scenario m s3 a3]
      updateTuple_keeps_active [OF update_scenario m s1 a1]
    by simp
qed
subsection \<open>Initialization and updates keep a filter initialized\<close>

text \<open>
  A filter that \<^verbatim>\<open>init\<close> returns is initialized (as long as the number of slots fits a
  \<^verbatim>\<open>size_t\<close>), it records every block of a table with distinct blocks at the offset of
  its place in the enumeration, and a successful \<^verbatim>\<open>updateTuple\<close> keeps it initialized. A
  resolve leaves a recorded pair in the cache.
\<close>

lemma initActiveTuple_fields:
  assumes "initActiveTuple bb f t = Inr f'"
  shows "m_blocks f' = m_blocks f" and "m_blockIndexes f' = m_blockIndexes f"
    and "m_tuplesPerBlock f' = m_tuplesPerBlock f" and "m_tupleLength f' = m_tupleLength f"
    and "length (m_tuples f') = length (m_tuples f)"
proof -
  from assms obtain idx f1 where g: "getTupleIndex bb f t = Inr (idx, f1)"
    and f': "f' = f1\<lparr>m_tuples := (m_tuples f1)[unat idx := ACTIVE_TUPLE]\<rparr>
           \<or> f' = f1\<lparr>m_tuples := (m_tuples f1)[unat idx := ACTIVE_TUPLE],
                     m_lastActiveTupleIndex := idx\<rparr>"
    by (auto simp: initActiveTuple_def Let_def split: sum.splits if_splits)
  note fl = getTupleIndex_fields [OF g]
  from f' show "m_blocks f' = m_blocks f" by (auto simp: fl)
  from f' show "m_blockIndexes f' = m_blockIndexes f" by (auto simp: fl)
  from f' show "m_tuplesPerBlock f' = m_tuplesPerBlock f" by (auto simp: fl)
  from f' show "m_tupleLength f' = m_tupleLength f" by (auto simp: fl)
  from f' show "length (m_tuples f') = length (m_tuples f)" by (auto simp: fl)
qed

lemma initActiveTuple_initialized:
  assumes "initActiveTuple bb f t = Inr f'" and "initialized f"
  shows "initialized f'"
proof -
  from assms(1) obtain idx f1 where g: "getTupleIndex bb f t = Inr (idx, f1)"
    and rng: "unat idx < length (m_tuples f1)"
    and f': "f' = f1\<lparr>m_tuples := (m_tuples f1)[unat idx := ACTIVE_TUPLE]\<rparr>
           \<or> f' = f1\<lparr>m_tuples := (m_tuples f1)[unat idx := ACTIVE_TUPLE],
                     m_lastActiveTupleIndex := idx\<rparr>"
    by (auto simp: initActiveTuple_def Let_def split: sum.splits if_splits)
  note fl = getTupleIndex_fields [OF g]
  from f' rng assms(2) show ?thesis
    by (auto simp: initialized_def fl)
qed

lemma initActiveTuples_initialized:
  "initActiveTuples bb f ts = Inr f' \<Longrightarrow> initialized f \<Longrightarrow> initialized f'"
  by (induction ts arbitrary: f) (auto split: sum.splits dest: initActiveTuple_initialized)

lemma init_blocks_initialized:
  "length blocks * unat tpb < 2 ^ 64 \<Longrightarrow> initialized (init_blocks f blocks tpb len)"
  by (simp add: initialized_def init_blocks_def)

lemma init_initialized:
  assumes "init bb f0 tbl = Inr f"
    and "length (tbl_blocks tbl) * unat (tbl_tuplesPerBlock tbl) < 2 ^ 64"
  shows "initialized f"
proof -
  from assms(1) have "initActiveTuples bb
      (init_blocks f0 (tbl_blocks tbl) (tbl_tuplesPerBlock tbl) (tbl_tupleLength tbl))
      (tbl_activeTuples tbl) = Inr f"
    by (simp add: init_def)
  then show ?thesis
    using init_blocks_initialized [OF assms(2)] by (rule initActiveTuples_initialized)
qed

lemma updateTuple_initialized:
  assumes "updateTuple bb f t mk = Inr (f', idx)" and "initialized f"
  shows "initialized f'"
proof -
  from assms(1) obtain f1 where g: "getTupleIndex bb f t = Inr (idx, f1)"
    and f': "f' = f1\<lparr>m_tuples := (m_tuples f1)[unat idx := mk]\<rparr>"
    by (auto simp: updateTuple_def split: sum.splits if_splits)
  note fl = getTupleIndex_fields [OF g]
  from assms(2) show ?thesis
    by (simp add: initialized_def f' fl)
qed

lemma init_blocks_offset:
  assumes "distinct blocks" and "k < length blocks"
  shows "m_blockIndexes (init_blocks f blocks tpb len) (m_blocks (init_blocks f blocks tpb len) ! k)
           = Some (block_offset (init_blocks f blocks tpb len) k)"
  using assms by (simp add: init_blocks_def block_offset_def map_of_zip_nth)

lemma initActiveTuples_fields:
  "initActiveTuples bb f ts = Inr f' \<Longrightarrow>
     m_blocks f' = m_blocks f \<and> m_blockIndexes f' = m_blockIndexes f
     \<and> m_tuplesPerBlock f' = m_tuplesPerBlock f \<and> m_tupleLength f' = m_tupleLength f
     \<and> length (m_tuples f') = length (m_tuples f)"
proof (induction ts arbitrary: f)
  case Nil
  then show ?case by simp
next
  case (Cons t ts)
  then obtain f1 where 1: "initActiveTuple bb f t = Inr f1"
    and 2: "initActiveTuples bb f1 ts = Inr f'"
    by (auto split: sum.splits)
  from Cons.IH [OF 2] initActiveTuple_fields [OF 1] show ?case by simp
qed

lemma init_offsets:
  assumes "init bb f0 tbl = Inr f" and "distinct (tbl_blocks tbl)"
    and "k < length (tbl_blocks tbl)"
  shows "m_blocks f = tbl_blocks tbl"
    and "m_blockIndexes f (m_blocks f ! k) = Some (block_offset f k)"
    and "length (m_tuples f) = length (tbl_blocks tbl) * unat (tbl_tuplesPerBlock tbl)"
proof -
  let ?g = "init_blocks f0 (tbl_blocks tbl) (tbl_tuplesPerBlock tbl) (tbl_tupleLength tbl)"
  from assms(1) have "initActiveTuples bb ?g (tbl_activeTuples tbl) = Inr f"
    by (simp add: init_def)
  note fl = initActiveTuples_fields [OF this]
  show b: "m_blocks f = tbl_blocks tbl"
    using fl by (simp add: init_blocks_def)
  have "block_offset f k = block_offset ?g k"
    using fl by (simp add: block_offset_def)
  moreover have "m_blocks f = m_blocks ?g" using fl by simp
  ultimately show "m_blockIndexes f (m_blocks f ! k) = Some (block_offset f k)"
    using init_blocks_offset [OF assms(2,3), of f0 "tbl_tuplesPerBlock tbl" "tbl_tupleLength tbl"] fl
    by simp
  show "length (m_tuples f) = length (tbl_blocks tbl) * unat (tbl_tuplesPerBlock tbl)"
    using fl by (simp add: init_blocks_def)
qed

lemma findBlockIndex_cache_recorded:
  assumes "findBlockIndex bb f a = Inr (off, f')" and "cache_recorded f \<or> \<not> cache_covers f a"
  shows "cache_recorded f'"
  using assms
  by (auto simp: findBlockIndex_def cache_recorded_def cache_covers_def
      split: if_splits option.splits)

text \<open>
  The cached pair is recorded after the first resolve that misses, and stays recorded over
  every later resolve, \<^verbatim>\<open>initActiveTuple\<close> and \<^verbatim>\<open>updateTuple\<close>. So a filter
  initialized from a table with an active tuple has a recorded cache, as long as the cache
  of the filter being initialized does not cover the first tuple; for \<open>new_filter\<close>, whose
  cache is zero, that is every first tuple that is not within the first span of the address
  space.
\<close>

lemma getTupleIndex_cache_recorded:
  assumes "getTupleIndex bb f a = Inr (idx, f')" and "cache_recorded f \<or> \<not> cache_covers f a"
  shows "cache_recorded f'"
  using assms
  by (auto simp: getTupleIndex_def split: sum.splits if_splits
      dest: findBlockIndex_cache_recorded)

lemma initActiveTuple_cache_recorded:
  assumes "initActiveTuple bb f t = Inr f'" and "cache_recorded f \<or> \<not> cache_covers f t"
  shows "cache_recorded f'"
proof -
  from assms(1) obtain idx f1 where g: "getTupleIndex bb f t = Inr (idx, f1)"
    and f': "f' = f1\<lparr>m_tuples := (m_tuples f1)[unat idx := ACTIVE_TUPLE]\<rparr>
           \<or> f' = f1\<lparr>m_tuples := (m_tuples f1)[unat idx := ACTIVE_TUPLE],
                     m_lastActiveTupleIndex := idx\<rparr>"
    by (auto simp: initActiveTuple_def Let_def split: sum.splits if_splits)
  from g assms(2) have "cache_recorded f1"
    by (rule getTupleIndex_cache_recorded)
  with f' show ?thesis
    by (auto simp: cache_recorded_def)
qed

lemma initActiveTuples_cache_recorded:
  "initActiveTuples bb f ts = Inr f' \<Longrightarrow> cache_recorded f \<Longrightarrow> cache_recorded f'"
proof (induction ts arbitrary: f)
  case Nil
  then show ?case by simp
next
  case (Cons t ts)
  then obtain f1 where 1: "initActiveTuple bb f t = Inr f1"
    and 2: "initActiveTuples bb f1 ts = Inr f'"
    by (auto split: sum.splits)
  from 1 Cons.prems(2) have "cache_recorded f1"
    by (intro initActiveTuple_cache_recorded [OF 1]) simp
  with 2 show ?case by (rule Cons.IH)
qed

lemma init_cache_recorded:
  assumes "init bb f0 tbl = Inr f" and "tbl_activeTuples tbl = t # ts"
    and "\<not> cache_covers
           (init_blocks f0 (tbl_blocks tbl) (tbl_tuplesPerBlock tbl) (tbl_tupleLength tbl)) t"
  shows "cache_recorded f"
proof -
  let ?g = "init_blocks f0 (tbl_blocks tbl) (tbl_tuplesPerBlock tbl) (tbl_tupleLength tbl)"
  from assms(1,2) obtain f1 where 1: "initActiveTuple bb ?g t = Inr f1"
    and 2: "initActiveTuples bb f1 ts = Inr f"
    by (auto simp: init_def split: sum.splits)
  from 1 assms(3) have "cache_recorded f1"
    by (intro initActiveTuple_cache_recorded [OF 1]) simp
  with 2 show ?thesis by (rule initActiveTuples_cache_recorded)
qed

lemma new_filter_cache_covers:
  "cache_covers (init_blocks new_filter blocks tpb len) a \<longleftrightarrow> a < ucast tpb * ucast len"
  by (simp add: cache_covers_def init_blocks_def new_filter_def block_span_def)

lemma init_new_filter_cache_recorded:
  assumes "init bb new_filter tbl = Inr f" and "tbl_activeTuples tbl = t # ts"
    and "ucast (tbl_tuplesPerBlock tbl) * ucast (tbl_tupleLength tbl) \<le> t"
  shows "cache_recorded f"
  using assms(1,2)
  by (rule init_cache_recorded) (simp add: new_filter_cache_covers assms(3) not_less)

lemma updateTuple_cache_recorded:
  assumes "updateTuple bb f t mk = Inr (f', idx)" and "cache_recorded f \<or> \<not> cache_covers f t"
  shows "cache_recorded f'"
proof -
  from assms(1) obtain f1 where g: "getTupleIndex bb f t = Inr (idx, f1)"
    and f': "f' = f1\<lparr>m_tuples := (m_tuples f1)[unat idx := mk]\<rparr>"
    by (auto simp: updateTuple_def split: sum.splits if_splits)
  from g assms(2) have "cache_recorded f1"
    by (rule getTupleIndex_cache_recorded)
  then show ?thesis
    by (simp add: f' cache_recorded_def)
qed

subsection \<open>Translating an address to a slot index\<close>

lemma span_tupleLength: "a - b < block_span f \<Longrightarrow> m_tupleLength f \<noteq> 0"
  by (auto simp: block_span_def)

lemma getTupleIndex_formula:
  assumes k: "k < length (m_blocks f)"
    and off: "m_blockIndexes f (m_blocks f ! k) = Some (block_offset f k)"
    and inside: "in_block f (m_blocks f ! k) a"
    and base: "bb a = m_blocks f ! k"
    and only: "\<forall>b. b \<in> dom (m_blockIndexes f) \<and> in_block f b a \<longrightarrow> b = m_blocks f ! k"
    and cache: "cache_recorded f \<or> \<not> cache_covers f a"
  shows "getTupleIndex bb f a =
           Inr ((a - m_blocks f ! k) div ucast (m_tupleLength f) + block_offset f k,
                f\<lparr>m_prevBlockAddress := m_blocks f ! k, m_prevBlockIndex := block_offset f k\<rparr>)"
proof -
  from inside have len: "m_tupleLength f \<noteq> 0"
    by (auto simp: in_block_def dest: span_tupleLength)
  show ?thesis
  proof (cases "cache_covers f a")
    case True
    with cache have rec: "cache_recorded f" by simp
    then have "m_prevBlockAddress f \<in> dom (m_blockIndexes f)"
      by (auto simp: cache_recorded_def)
    with True only have p: "m_prevBlockAddress f = m_blocks f ! k"
      by (simp add: cache_covers_def in_block_def)
    with rec off have q: "m_prevBlockIndex f = block_offset f k"
      by (simp add: cache_recorded_def)
    have "f\<lparr>m_prevBlockAddress := m_blocks f ! k, m_prevBlockIndex := block_offset f k\<rparr> = f"
      using p q by simp
    with True len p q show ?thesis
      by (simp add: getTupleIndex_def findBlockIndex_def cache_covers_def)
  next
    case False
    then have "\<not> (m_prevBlockAddress f \<le> a \<and> a - m_prevBlockAddress f < block_span f)"
      by (simp add: cache_covers_def)
    then have "findBlockIndex bb f a = Inr (block_offset f k,
        f\<lparr>m_prevBlockAddress := m_blocks f ! k, m_prevBlockIndex := block_offset f k\<rparr>)"
      using off base by (auto simp: findBlockIndex_def)
    with len show ?thesis
      by (simp add: getTupleIndex_def)
  qed
qed

text \<open>
  After an initialization from \<open>new_filter\<close> the index is the formula with no condition
  on the cache left to state.
\<close>

lemma getTupleIndex_after_init:
  assumes i: "init bb new_filter tbl = Inr f" and d: "distinct (tbl_blocks tbl)"
    and act: "tbl_activeTuples tbl = t # ts"
    and first: "ucast (tbl_tuplesPerBlock tbl) * ucast (tbl_tupleLength tbl) \<le> t"
    and k: "k < length (tbl_blocks tbl)"
    and inside: "in_block f (m_blocks f ! k) a"
    and base: "bb a = m_blocks f ! k"
    and only: "\<forall>b. b \<in> dom (m_blockIndexes f) \<and> in_block f b a \<longrightarrow> b = m_blocks f ! k"
  shows "map_sum id fst (getTupleIndex bb f a)
           = Inr ((a - m_blocks f ! k) div ucast (m_tupleLength f) + block_offset f k)"
proof -
  note o = init_offsets [OF i d k]
  from k o(1) have k': "k < length (m_blocks f)" by simp
  have "cache_recorded f"
    using i act first by (rule init_new_filter_cache_recorded)
  then have c: "cache_recorded f \<or> \<not> cache_covers f a" by simp
  show ?thesis
    by (simp add: getTupleIndex_formula [where bb = bb and a = a, OF k' o(2) inside base only c])
qed




subsection \<open>Iterating over the slots with a given marker\<close>

lemma unat_of_nat_slot: "j < 2 ^ 64 \<Longrightarrow> unat (of_nat j :: u64) = j"
  by (simp add: unat_of_nat)

lemma getTupleValue_slot:
  assumes "length (m_tuples f) < 2 ^ 64" and "j < length (m_tuples f)"
  shows "getTupleValue f (of_nat j) = Inr (m_tuples f ! j)"
proof -
  from assms have j: "unat (of_nat j :: u64) = j"
    by (intro unat_of_nat_slot) simp
  from assms(1) have "unat (of_nat (length (m_tuples f)) :: u64) = length (m_tuples f)"
    by (rule unat_of_nat_slot)
  with j assms(2) have "(of_nat j :: u64) < tuples_size f"
    by (simp add: tuples_size_def word_less_nat_alt)
  then show ?thesis
    by (simp add: getTupleValue_def j)
qed

lemma slot_le_last:
  assumes "length (m_tuples f) < 2 ^ 64" and "unat (m_lastActiveTupleIndex f) < length (m_tuples f)"
    and "j \<le> Suc (unat (m_lastActiveTupleIndex f))"
  shows "(of_nat j :: u64) \<le> m_lastActiveTupleIndex f \<longleftrightarrow> j \<le> unat (m_lastActiveTupleIndex f)"
proof -
  from assms have "unat (of_nat j :: u64) = j"
    by (intro unat_of_nat_slot) simp
  then show ?thesis by (simp add: word_le_nat_alt)
qed

lemma increment_scan:
  assumes sz: "length (m_tuples f) < 2 ^ 64"
    and la: "unat (m_lastActiveTupleIndex f) < length (m_tuples f)"
  shows "j \<le> Suc (unat (m_lastActiveTupleIndex f)) \<Longrightarrow>
     \<exists>k. j \<le> k \<and> k \<le> Suc (unat (m_lastActiveTupleIndex f))
        \<and> increment f M (of_nat j - 1) = Inr (of_nat k)
        \<and> (k \<le> unat (m_lastActiveTupleIndex f) \<longrightarrow> m_tuples f ! k = M)
        \<and> (\<forall>m. j \<le> m \<and> m < k \<longrightarrow> m_tuples f ! m \<noteq> M)"
proof (induction "Suc (unat (m_lastActiveTupleIndex f)) - j" arbitrary: j)
  case 0
  then have j: "j = Suc (unat (m_lastActiveTupleIndex f))" by simp
  have "\<not> (of_nat j :: u64) \<le> m_lastActiveTupleIndex f"
    using slot_le_last [OF sz la, of j] j by simp
  then have "increment f M (of_nat j - 1) = Inr (of_nat j)"
    by (simp add: increment.simps [of f M "of_nat j - 1"] getLastActiveTupleIndex_def)
  with j show ?case by auto
next
  case (Suc d)
  then have jl: "j \<le> unat (m_lastActiveTupleIndex f)" by simp
  then have le: "(of_nat j :: u64) \<le> m_lastActiveTupleIndex f"
    using slot_le_last [OF sz la, of j] by simp
  from jl la have v: "getTupleValue f (of_nat j) = Inr (m_tuples f ! j)"
    by (intro getTupleValue_slot [OF sz]) simp
  show ?case
  proof (cases "m_tuples f ! j = M")
    case True
    with le v have "increment f M (of_nat j - 1) = Inr (of_nat j)"
      by (simp add: increment.simps [of f M "of_nat j - 1"] getLastActiveTupleIndex_def)
    with True jl show ?thesis by auto
  next
    case False
    with le v have step: "increment f M (of_nat j - 1) = increment f M (of_nat (Suc j) - 1)"
      by (simp add: increment.simps [of f M "of_nat j - 1"] getLastActiveTupleIndex_def)
    from Suc.hyps(2) have "d = Suc (unat (m_lastActiveTupleIndex f)) - Suc j" by simp
    moreover from jl have "Suc j \<le> Suc (unat (m_lastActiveTupleIndex f))" by simp
    ultimately obtain k where k: "Suc j \<le> k" "k \<le> Suc (unat (m_lastActiveTupleIndex f))"
      "increment f M (of_nat (Suc j) - 1) = Inr (of_nat k)"
      "k \<le> unat (m_lastActiveTupleIndex f) \<longrightarrow> m_tuples f ! k = M"
      "\<forall>m. Suc j \<le> m \<and> m < k \<longrightarrow> m_tuples f ! m \<noteq> M"
      using Suc.hyps(1) [of "Suc j"] by blast
    have "\<forall>m. j \<le> m \<and> m < k \<longrightarrow> m_tuples f ! m \<noteq> M"
    proof (intro allI impI)
      fix m assume "j \<le> m \<and> m < k"
      then consider "m = j" | "Suc j \<le> m \<and> m < k" by linarith
      then show "m_tuples f ! m \<noteq> M"
        using False k(5) by cases auto
    qed
    with k step show ?thesis
      by (intro exI [of _ k]) simp
  qed
qed

lemma filter_upt_skip:
  assumes "a \<le> b" and "b \<le> c" and "\<forall>m. a \<le> m \<and> m < b \<longrightarrow> \<not> P m"
  shows "filter P [a..<c] = filter P [b..<c]"
proof -
  from assms(1,2) have "[a..<c] = [a..<b] @ [b..<c]"
    by (metis le_Suc_ex upt_add_eq_append)
  moreover from assms(3) have "filter P [a..<b] = []"
    by (simp add: filter_empty_conv)
  ultimately show ?thesis by simp
qed

lemma walk_from_match:
  assumes sz: "length (m_tuples f) < 2 ^ 64"
    and la: "unat (m_lastActiveTupleIndex f) < length (m_tuples f)"
    and ne: "m_lastActiveTupleIndex f \<noteq> INVALID_INDEX"
  shows "k \<le> Suc (unat (m_lastActiveTupleIndex f)) \<Longrightarrow>
     (k \<le> unat (m_lastActiveTupleIndex f) \<longrightarrow> m_tuples f ! k = M) \<Longrightarrow>
     walk f M (of_nat k) =
       Inr (map of_nat (filter (\<lambda>i. m_tuples f ! i = M) [k..<Suc (unat (m_lastActiveTupleIndex f))]),
            m_lastActiveTupleIndex f + 1)"
proof (induction "Suc (unat (m_lastActiveTupleIndex f)) - k" arbitrary: k rule: less_induct)
  case less
  let ?n = "unat (m_lastActiveTupleIndex f)"
  have e: "filter_end f = of_nat (Suc ?n)"
    using ne by (simp add: filter_end_def getLastActiveTupleIndex_def)
  have ue: "unat (of_nat (Suc ?n) :: u64) = Suc ?n"
    using sz la by (intro unat_of_nat_slot) simp
  have uk: "unat (of_nat k :: u64) = k"
    using sz la less.prems(1) by (intro unat_of_nat_slot) simp
  show ?case
  proof (cases "k = Suc ?n")
    case True
    then show ?thesis
      using ne by (simp add: walk.simps [of f M "of_nat k"] iter_equal_def filter_end_def
          getLastActiveTupleIndex_def)
  next
    case False
    with less.prems have kl: "k \<le> ?n" and mk: "m_tuples f ! k = M" by simp_all
    from False uk ue have neq: "(of_nat k :: u64) \<noteq> filter_end f"
      unfolding e by (metis)
    from kl obtain k' where k': "Suc k \<le> k'" "k' \<le> Suc ?n"
      "increment f M (of_nat (Suc k) - 1) = Inr (of_nat k')"
      "k' \<le> ?n \<longrightarrow> m_tuples f ! k' = M"
      "\<forall>m. Suc k \<le> m \<and> m < k' \<longrightarrow> m_tuples f ! m \<noteq> M"
      using increment_scan [OF sz la, of "Suc k" M] by auto
    from k'(3) have inc: "increment f M (of_nat k) = Inr (of_nat k')" by simp
    have "Suc ?n - k' < Suc ?n - k" using k'(1,2) by linarith
    then have rec: "walk f M (of_nat k') =
       Inr (map of_nat (filter (\<lambda>i. m_tuples f ! i = M) [k'..<Suc ?n]),
            m_lastActiveTupleIndex f + 1)"
      using k'(2,4) by (rule less.hyps)
    have "filter (\<lambda>i. m_tuples f ! i = M) [k..<Suc ?n]
            = k # filter (\<lambda>i. m_tuples f ! i = M) [Suc k..<Suc ?n]"
      using kl mk by (subst upt_rec) simp
    also have "filter (\<lambda>i. m_tuples f ! i = M) [Suc k..<Suc ?n]
            = filter (\<lambda>i. m_tuples f ! i = M) [k'..<Suc ?n]"
      using k'(1,2,5) by (intro filter_upt_skip) auto
    finally have fl: "filter (\<lambda>i. m_tuples f ! i = M) [k..<Suc ?n]
            = k # filter (\<lambda>i. m_tuples f ! i = M) [k'..<Suc ?n]" .
    have "walk f M (of_nat k) =
        Inr (dereference (of_nat k)
               # map of_nat (filter (\<lambda>i. m_tuples f ! i = M) [k'..<Suc ?n]),
             m_lastActiveTupleIndex f + 1)"
      by (subst walk.simps)
         (simp only: iter_equal_def neq if_False inc rec sum.case prod.case)
    then show ?thesis
      by (simp only: fl dereference_def list.map)
  qed
qed

lemma iterate_nonempty:
  assumes "initialized f" and "\<not> filter_empty f"
  shows "iterate M f =
       Inr (map of_nat (filter (\<lambda>i. m_tuples f ! i = M) [0..<Suc (unat (m_lastActiveTupleIndex f))]),
            m_lastActiveTupleIndex f + 1)"
proof -
  let ?n = "unat (m_lastActiveTupleIndex f)"
  from assms have sz: "length (m_tuples f) < 2 ^ 64" and la: "?n < length (m_tuples f)"
    and ne: "m_lastActiveTupleIndex f \<noteq> INVALID_INDEX"
    by (auto simp: initialized_def filter_empty_def)
  obtain k where k: "k \<le> Suc ?n" "increment f M (of_nat 0 - 1) = Inr (of_nat k)"
      "k \<le> ?n \<longrightarrow> m_tuples f ! k = M"
      "\<forall>m. 0 \<le> m \<and> m < k \<longrightarrow> m_tuples f ! m \<noteq> M"
    using increment_scan [OF sz la, of 0 M] by auto
  from k(2) have b: "filter_begin M f = Inr (of_nat k)"
    using assms(2) by (simp add: filter_begin_def INVALID_INDEX_def)
  have "filter (\<lambda>i. m_tuples f ! i = M) [0..<Suc ?n]
          = filter (\<lambda>i. m_tuples f ! i = M) [k..<Suc ?n]"
    using k(1,4) by (intro filter_upt_skip) auto
  then show ?thesis
    using walk_from_match [OF sz la ne k(1,3)] b by (simp add: iterate_def)
qed

lemma visited_slots_set:
  assumes sz: "length (m_tuples f) < 2 ^ 64"
    and la: "unat (m_lastActiveTupleIndex f) < length (m_tuples f)"
  shows "set (map of_nat (filter (\<lambda>i. m_tuples f ! i = M)
                 [0..<Suc (unat (m_lastActiveTupleIndex f))]))
           = {s :: u64. s \<le> m_lastActiveTupleIndex f \<and> m_tuples f ! unat s = M}"
proof (intro set_eqI iffI)
  fix s :: u64
  assume "s \<in> set (map of_nat (filter (\<lambda>i. m_tuples f ! i = M)
                 [0..<Suc (unat (m_lastActiveTupleIndex f))]))"
  then obtain i where i: "i \<le> unat (m_lastActiveTupleIndex f)" "m_tuples f ! i = M"
    and s: "s = of_nat i"
    by (auto simp del: upt_Suc simp: less_Suc_eq_le)
  from i(1) sz la have "unat (of_nat i :: u64) = i"
    by (intro unat_of_nat_slot) simp
  with i show "s \<in> {s. s \<le> m_lastActiveTupleIndex f \<and> m_tuples f ! unat s = M}"
    by (simp add: s word_le_nat_alt)
next
  fix s :: u64
  assume "s \<in> {s. s \<le> m_lastActiveTupleIndex f \<and> m_tuples f ! unat s = M}"
  then have "unat s \<le> unat (m_lastActiveTupleIndex f)" and "m_tuples f ! unat s = M"
    by (simp_all add: word_le_nat_alt)
  then have "unat s \<in> set (filter (\<lambda>i. m_tuples f ! i = M)
                 [0..<Suc (unat (m_lastActiveTupleIndex f))])"
    by (simp del: upt_Suc)
  then have "of_nat (unat s) \<in> set (map of_nat (filter (\<lambda>i. m_tuples f ! i = M)
                 [0..<Suc (unat (m_lastActiveTupleIndex f))]) :: u64 list)"
    unfolding set_map by (rule imageI)
  then show "s \<in> set (map of_nat (filter (\<lambda>i. m_tuples f ! i = M)
                 [0..<Suc (unat (m_lastActiveTupleIndex f))]))"
    by simp
qed

lemma visited_slots_increasing:
  assumes sz: "length (m_tuples f) < 2 ^ 64"
    and la: "unat (m_lastActiveTupleIndex f) < length (m_tuples f)"
  shows "sorted_wrt (<) (map of_nat (filter (\<lambda>i. m_tuples f ! i = M)
                 [0..<Suc (unat (m_lastActiveTupleIndex f))]) :: u64 list)"
proof -
  let ?ys = "filter (\<lambda>i. m_tuples f ! i = M) [0..<Suc (unat (m_lastActiveTupleIndex f))]"
  have b: "unat (of_nat i :: u64) = i" if "i \<in> set ?ys" for i
    using that sz la by (intro unat_of_nat_slot) (simp del: upt_Suc)
  have "sorted_wrt (<) ?ys"
    by (intro sorted_wrt_filter) (rule sorted_wrt_upt)
  then have "sorted_wrt (\<lambda>a b. (of_nat a :: u64) < of_nat b) ?ys"
    by (rule sorted_wrt_mono_rel [rotated]) (simp add: word_less_nat_alt b)
  then show ?thesis
    by (simp only: sorted_wrt_map)
qed

text \<open>
  Claim C2. For every initialized non-empty filter and every marker \<open>M\<close>, walking from
  \<open>begin<M>()\<close> by repeated increment until the iterator equals \<open>end<M>()\<close> succeeds,
  visits the slots \<open>0, ..., last_active_slot\<close> whose marker is \<open>M\<close> in increasing order
  of slot (so the set of visited slots is exactly the set of slots at most the last active
  slot whose marker is \<open>M\<close>, and the visited sequence is strictly increasing), and stops at
  \<open>last_active_slot + 1\<close>.
\<close>

theorem iterate_visits_matching_slots:
  assumes "initialized f" and "\<not> filter_empty f"
  shows "\<exists>xs. iterate M f = Inr (xs, m_lastActiveTupleIndex f + 1)
           \<and> xs = map of_nat (filter (\<lambda>i. m_tuples f ! i = M)
                        [0..<Suc (unat (m_lastActiveTupleIndex f))])
           \<and> set xs = {s. s \<le> m_lastActiveTupleIndex f \<and> m_tuples f ! unat s = M}
           \<and> sorted_wrt (<) xs"
proof -
  from assms have sz: "length (m_tuples f) < 2 ^ 64"
    and la: "unat (m_lastActiveTupleIndex f) < length (m_tuples f)"
    by (auto simp: initialized_def filter_empty_def)
  show ?thesis
    using iterate_nonempty [OF assms, of M] visited_slots_set [OF sz la, of M]
      visited_slots_increasing [OF sz la, of M]
    by blast
qed

theorem iterate_visits_matching_slots_witness:
  "initialized scenario_filter \<and> \<not> filter_empty scenario_filter
   \<and> iterate ACTIVE_TUPLE scenario_filter = Inr ([0, 1, 3, 6], 7)
   \<and> set [0, 1, 3, 6 :: u64]
       = {s. s \<le> m_lastActiveTupleIndex scenario_filter
             \<and> m_tuples scenario_filter ! unat s = ACTIVE_TUPLE}
   \<and> sorted_wrt (<) [0, 1, 3, 6 :: u64]"
proof -
  have i: "initialized scenario_filter"
    by (simp add: initialized_def scenario_defs)
  have n: "\<not> filter_empty scenario_filter"
    by (simp add: filter_empty_def scenario_defs)
  have l: "map of_nat (filter (\<lambda>i. m_tuples scenario_filter ! i = ACTIVE_TUPLE)
             [0..<Suc (unat (m_lastActiveTupleIndex scenario_filter))]) = [0, 1, 3, 6 :: u64]"
    by (simp add: scenario_defs upt_rec)
  have e: "m_lastActiveTupleIndex scenario_filter + 1 = 7"
    by (simp add: scenario_defs)
  show ?thesis
    using i n iterate_visits_matching_slots [OF i n, of ACTIVE_TUPLE]
    unfolding l e by blast
qed

text \<open>
  Claim C9. For every initialized filter and every marker, the iteration from
  \<open>begin<M>()\<close> terminates: the walk is a total function, it returns without a failed
  assertion, it stops at the end position, the visited sequence is finite with at most
  \<open>last_active_slot + 1\<close> entries, and every visited slot is at most the last active slot.
\<close>

theorem iteration_terminates_within_bound:
  assumes "initialized f"
  shows "\<exists>xs. iterate M f = Inr (xs, filter_end f)
           \<and> (\<forall>s \<in> set xs. s \<le> m_lastActiveTupleIndex f)
           \<and> length xs \<le> Suc (unat (m_lastActiveTupleIndex f))"
proof (cases "filter_empty f")
  case True
  then have "iterate M f = Inr ([], filter_end f)"
    by (simp add: iterate_def filter_begin_def filter_end_def filter_empty_def iter_equal_def
        getLastActiveTupleIndex_def)
  then show ?thesis by simp
next
  case False
  let ?xs = "map of_nat (filter (\<lambda>i. m_tuples f ! i = M)
               [0..<Suc (unat (m_lastActiveTupleIndex f))]) :: u64 list"
  from assms False have sz: "length (m_tuples f) < 2 ^ 64"
    and la: "unat (m_lastActiveTupleIndex f) < length (m_tuples f)"
    by (auto simp: initialized_def filter_empty_def)
  from False have e: "filter_end f = m_lastActiveTupleIndex f + 1"
    by (simp add: filter_end_def filter_empty_def getLastActiveTupleIndex_def)
  have it: "iterate M f = Inr (?xs, filter_end f)"
    unfolding e using assms False by (rule iterate_nonempty)
  have bd: "\<forall>s \<in> set ?xs. s \<le> m_lastActiveTupleIndex f"
    unfolding visited_slots_set [OF sz la] by simp
  have "length ?xs \<le> length [0..<Suc (unat (m_lastActiveTupleIndex f))]"
    unfolding length_map by (rule length_filter_le)
  then have ln: "length ?xs \<le> Suc (unat (m_lastActiveTupleIndex f))"
    by simp
  from it bd ln show ?thesis by blast
qed

theorem iteration_terminates_within_bound_witness:
  "initialized scenario_updated
   \<and> iterate 5 scenario_updated = Inr ([1], filter_end scenario_updated)
   \<and> 1 \<le> m_lastActiveTupleIndex scenario_updated
   \<and> length [1 :: u64] \<le> Suc (unat (m_lastActiveTupleIndex scenario_updated))"
proof -
  have i: "initialized scenario_updated"
    by (simp add: initialized_def scenario_defs)
  have e: "filter_end scenario_updated = 7"
    by (simp add: filter_end_def getLastActiveTupleIndex_def scenario_defs)
  from iteration_terminates_within_bound [OF i, of 5]
  obtain xs where xs: "iterate 5 scenario_updated = Inr (xs, filter_end scenario_updated)"
    and bd: "\<forall>s \<in> set xs. s \<le> m_lastActiveTupleIndex scenario_updated"
    and ln: "length xs \<le> Suc (unat (m_lastActiveTupleIndex scenario_updated))"
    by blast
  from xs have "xs = [1]"
    by (simp add: iterate_updated_5 e)
  with i xs bd ln show ?thesis by simp
qed
subsection \<open>The empty filter and the first increment\<close>

text \<open>
  Claim C7. For every empty filter (the last active slot is the invalid sentinel) and every
  marker, the begin iterator is at the invalid sentinel, which is also the end position, so
  begin equals end, and the iteration visits no slot.
\<close>

theorem empty_filter_iteration:
  "filter_empty f \<Longrightarrow>
     filter_begin M f = Inr INVALID_INDEX \<and> filter_end f = INVALID_INDEX
     \<and> iter_equal INVALID_INDEX (filter_end f)
     \<and> iterate M f = Inr ([], filter_end f)"
  by (simp add: iterate_def filter_begin_def filter_end_def filter_empty_def iter_equal_def
      getLastActiveTupleIndex_def)

theorem empty_filter_iteration_witness:
  "filter_empty (init_blocks new_filter [0x1000, 0x2000] 4 16)
   \<and> filter_begin 5 (init_blocks new_filter [0x1000, 0x2000] 4 16) = Inr INVALID_INDEX
   \<and> iterate 5 (init_blocks new_filter [0x1000, 0x2000] 4 16) = Inr ([], INVALID_INDEX)"
proof -
  have h: "filter_empty (init_blocks new_filter [0x1000, 0x2000] 4 16)"
    by (simp add: filter_empty_def init_blocks_def)
  show ?thesis
    using h empty_filter_iteration [OF h, of 5] by simp
qed

text \<open>
  Claim C10. The begin iterator of a non-empty filter is constructed at the invalid sentinel,
  the largest 64-bit value, and incremented once. The first step of that increment wraps
  around to 0, so the first slot whose marker is examined is slot 0: begin is slot 0 if the
  marker there is the one looked for, and otherwise the result of going on from slot 0.
\<close>

theorem begin_wraps_to_slot_zero:
  "\<not> filter_empty f \<Longrightarrow>
     filter_begin M f = increment f M INVALID_INDEX
     \<and> unat INVALID_INDEX = 2 ^ 64 - 1
     \<and> INVALID_INDEX + 1 = 0
     \<and> filter_begin M f =
         (case getTupleValue f 0 of
            Inl e \<Rightarrow> Inl e
          | Inr v \<Rightarrow> if v \<noteq> M then increment f M 0 else Inr 0)"
  by (simp add: filter_begin_def INVALID_INDEX_def increment.simps [of f M "- 1"] Let_def
      getLastActiveTupleIndex_def unsigned_minus_1_eq_mask mask_eq_exp_minus_1)

theorem begin_wraps_to_slot_zero_witness:
  "\<not> filter_empty scenario_filter
   \<and> filter_begin 5 scenario_filter = increment scenario_filter 5 INVALID_INDEX
   \<and> filter_begin ACTIVE_TUPLE scenario_filter = Inr 0"
proof -
  have h: "\<not> filter_empty scenario_filter"
    by (simp add: filter_empty_def scenario_filter_def INVALID_INDEX_def)
  have v: "getTupleValue scenario_filter 0 = Inr ACTIVE_TUPLE"
    by (simp add: getTupleValue_def tuples_size_def scenario_filter_def ACTIVE_TUPLE_def)
  show ?thesis
    using h begin_wraps_to_slot_zero [OF h, of 5]
      begin_wraps_to_slot_zero [OF h, of ACTIVE_TUPLE] v
    by simp
qed

subsection \<open>Writing the inactive code\<close>

text \<open>
  \<^verbatim>\<open>updateTuple\<close> stores whatever byte it is given. In the scenario slot 1 is active and
  at most the last active slot; updating its tuple with the inactive code succeeds and
  leaves the slot inactive.
\<close>

theorem update_writes_inactive:
  "m_tuples scenario_filter ! 1 \<noteq> INACTIVE_TUPLE
   \<and> 1 \<le> m_lastActiveTupleIndex scenario_filter
   \<and> updateTuple aligned64 scenario_filter 0x1010 INACTIVE_TUPLE
       = Inr (scenario_filter\<lparr>m_tuples := [0, - 1, - 1, 0, - 1, - 1, 0, - 1],
                m_prevBlockAddress := 0x1000, m_prevBlockIndex := 0\<rparr>, 1)
   \<and> [0, - 1, - 1, 0, - 1, - 1, 0, - 1] ! 1 = INACTIVE_TUPLE"
  by (simp add: scenario_defs translate_defs)

end
